theory Spec2Isabelle
  imports Main
begin

section \<open>The metrics key indexer model and its identifier sequence\<close>

text \<open>
  The source is \<^verbatim>\<open>src/sentry/sentry_metrics/indexer/models.py\<close>: a Django model
  \<^verbatim>\<open>MetricsKeyIndexer\<close> with two declared columns, one uniqueness constraint, and the class
  method \<^verbatim>\<open>get_next_values\<close>, which sends one SQL statement to PostgreSQL and returns the
  rows that come back.

  The method is embedded with explicit state passing. The state is the database that the
  router selects for writes; every raise of the driver is a value of \<open>error\<close>, and every
  operation returns the state it leaves behind together with its result, because a failed
  statement still leaves effects (values drawn from a sequence are never given back).
\<close>

subsection \<open>Values, errors and statements\<close>

text \<open>
  What a DB-API cursor hands back: \<^verbatim>\<open>fetchall()\<close> returns a list of row tuples. Python
  keeps a bare integer \<^verbatim>\<open>11\<close> and the one-element tuple \<^verbatim>\<open>(11,)\<close> apart, so the model
  does too.
\<close>

datatype pyobj = PyInt int | PyTuple "pyobj list"

text \<open>
  The exceptions of \<^verbatim>\<open>django.db\<close> that the operations can raise:
  \<^item> \<open>OperationalError\<close>: the connection cannot be established;
  \<^item> \<open>ProgrammingError\<close>: the statement names a relation that does not exist;
  \<^item> \<open>DataError\<close>: a value is out of range (sequence exhausted, string too long);
  \<^item> \<open>IntegrityError\<close>: a constraint is violated; it carries the constraint's name.
\<close>

datatype error =
    OperationalError
  | ProgrammingError
  | DataError
  | IntegrityError string

text \<open>A Python \<^verbatim>\<open>str\<close> is a sequence of code points; its length counts code points.\<close>

type_synonym codepoint = nat
type_synonym pystr = "codepoint list"

text \<open>A timestamp, as microseconds since the epoch.\<close>

type_synonym datetime = int

text \<open>
  A stored row of \<^verbatim>\<open>sentry_metricskeyindexer\<close>. The columns \<^verbatim>\<open>string\<close> and
  \<^verbatim>\<open>date_added\<close> are declared in the source (lines 12 and 13); the primary key
  \<^verbatim>\<open>id\<close> is inherited from the base class \<^verbatim>\<open>Model\<close>.
\<close>

record row =
  id_col :: int
  string_col :: pystr
  date_added_col :: datetime

text \<open>
  A PostgreSQL sequence: the value it handed out last, and the largest value it may hand
  out. A sequence that backs a primary key steps by one and does not cycle. A sequence that
  has not been used yet stands one below its start value.
\<close>

record sequence =
  last_value :: int
  max_value :: int

text \<open>
  The statements that reach the server. \<open>SelectNextval name num\<close> is the statement of
  the source (line 28),
  \<^verbatim>\<open>SELECT nextval('name') from generate_series(1,%s)\<close> with parameter \<^verbatim>\<open>[num]\<close>.
\<close>

datatype statement =
    SelectNextval string int
  | InsertInto string row
  | DeleteFrom string int

text \<open>
  The database: whether a connection to it can be opened, its sequences by name, the rows
  of the table, and the statements it has received so far, oldest first.
\<close>

record database =
  reachable :: bool
  sequences :: "string \<rightharpoonup> sequence"
  table :: "row list"
  statements :: "statement list"

subsection \<open>PostgreSQL: \<^verbatim>\<open>nextval\<close> and \<^verbatim>\<open>generate_series\<close>\<close>

text \<open>
  \<^verbatim>\<open>nextval\<close> advances the named sequence by one and returns the new value. At the
  maximum it raises instead and leaves the sequence where it is.
\<close>

definition nextval :: "string \<Rightarrow> database \<Rightarrow> (error + int) \<times> database" where
  "nextval name db =
     (case sequences db name of
        None \<Rightarrow> (Inl ProgrammingError, db)
      | Some s \<Rightarrow>
          if last_value s < max_value s
          then (Inr (last_value s + 1),
                db\<lparr>sequences := (sequences db)(name \<mapsto> s\<lparr>last_value := last_value s + 1\<rparr>)\<rparr>)
          else (Inl DataError, db))"

text \<open>\<^verbatim>\<open>generate_series(start, stop)\<close>: one row per integer from start to stop, none if
  \<open>stop < start\<close>.\<close>

definition generate_series :: "int \<Rightarrow> int \<Rightarrow> int list" where
  "generate_series start stop = [start..stop]"

text \<open>
  \<^verbatim>\<open>SELECT nextval(name) FROM series\<close>: the select list is evaluated once per row of the
  series, in order; each result row is a one-column tuple. The first error ends the
  statement; the sequence keeps the advances made before it.
\<close>

fun select_nextval :: "string \<Rightarrow> int list \<Rightarrow> database \<Rightarrow> (error + pyobj list) \<times> database" where
  "select_nextval name [] db = (Inr [], db)"
| "select_nextval name (g # gs) db =
     (case nextval name db of
        (Inl e, db') \<Rightarrow> (Inl e, db')
      | (Inr v, db') \<Rightarrow>
          (case select_nextval name gs db' of
             (Inl e, db'') \<Rightarrow> (Inl e, db'')
           | (Inr rows, db'') \<Rightarrow> (Inr (PyTuple [PyInt v] # rows), db'')))"

subsection \<open>The cursor\<close>

text \<open>A cursor holds the rows of the last statement that have not been fetched yet.\<close>

record cursor =
  pending :: "pyobj list"

text \<open>\<^verbatim>\<open>connections[using].cursor()\<close>: opens the connection if need be.\<close>

definition open_cursor :: "database \<Rightarrow> error + cursor" where
  "open_cursor db = (if reachable db then Inr \<lparr>pending = []\<rparr> else Inl OperationalError)"

text \<open>
  \<^verbatim>\<open>cursor.execute(sql, params)\<close> for the statement of the source. The server records the
  statement, resolves the sequence name when it plans the query (so a missing sequence is
  an error even when the series is empty), then runs it.
\<close>

definition execute :: "cursor \<Rightarrow> string \<Rightarrow> int \<Rightarrow> database \<Rightarrow> (error + cursor) \<times> database" where
  "execute c name num db =
     (let db1 = db\<lparr>statements := statements db @ [SelectNextval name num]\<rparr>
      in case sequences db1 name of
           None \<Rightarrow> (Inl ProgrammingError, db1)
         | Some _ \<Rightarrow>
             (case select_nextval name (generate_series 1 num) db1 of
                (Inl e, db2) \<Rightarrow> (Inl e, db2)
              | (Inr rows, db2) \<Rightarrow> (Inr (c\<lparr>pending := rows\<rparr>), db2)))"

text \<open>\<^verbatim>\<open>cursor.fetchall()\<close>: all pending rows, as they are.\<close>

definition fetchall :: "cursor \<Rightarrow> pyobj list" where
  "fetchall c = pending c"

subsection \<open>\<^verbatim>\<open>MetricsKeyIndexer.get_next_values\<close>\<close>

definition id_seq :: string where
  "id_seq = ''sentry_metricskeyindexer_id_seq''"

text \<open>
  \<^verbatim>\<open>
  def get_next_values(cls, num):
      using = router.db_for_write(cls)
      connection = connections[using].cursor()
      connection.execute(
          "SELECT nextval('sentry_metricskeyindexer_id_seq') from generate_series(1,%s)", [num]
      )
      return connection.fetchall()
  \<close>
  The database \<open>db\<close> is the one the router names. There is no check of \<open>num\<close>.
\<close>

definition get_next_values :: "int \<Rightarrow> database \<Rightarrow> (error + pyobj list) \<times> database" where
  "get_next_values num db =
     (case open_cursor db of
        Inl e \<Rightarrow> (Inl e, db)
      | Inr connection \<Rightarrow>
          (case execute connection id_seq num db of
             (Inl e, db') \<Rightarrow> (Inl e, db')
           | (Inr connection', db') \<Rightarrow> (Inr (fetchall connection'), db')))"

subsection \<open>The declared columns and constraints\<close>

text \<open>
  The class body, as data:
  \<^verbatim>\<open>
  string = models.CharField(max_length=200)
  date_added = models.DateTimeField(default=timezone.now)

  class Meta:
      db_table = "sentry_metricskeyindexer"
      app_label = "sentry"
      constraints = [
          models.UniqueConstraint(fields=["string"], name="unique_string"),
      ]
  \<close>
  A default is either absent or the callable \<^verbatim>\<open>timezone.now\<close>, which reads the clock
  when it is called.
\<close>

datatype field_default = NOT_PROVIDED | TimezoneNow

datatype field = CharField nat | DateTimeField field_default

datatype constraint = UniqueConstraint "string list" string

record options =
  db_table :: string
  app_label :: string
  constraints :: "constraint list"

definition string_field :: field where
  "string_field = CharField 200"

definition date_added_field :: field where
  "date_added_field = DateTimeField TimezoneNow"

definition Meta :: options where
  "Meta = \<lparr>db_table = ''sentry_metricskeyindexer'',
           app_label = ''sentry'',
           constraints = [UniqueConstraint [''string''] ''unique_string'']\<rparr>"

subsection \<open>Row insertion and deletion\<close>

text \<open>
  Modelled from the spec: inserting and deleting rows is done by the ORM and the database,
  not by code of this file. The spec gives the data model (section 3: \<open>id\<close> is the
  primary key, \<open>value\<close> has at most 200 characters and is unique, \<open>createdAt\<close> defaults
  to the time of row creation) and the error (section 7: a second insertion of the same
  string is a constraint violation). The definitions below enforce exactly what the class
  body above declares, plus the primary key.
\<close>

datatype cell = IntCell int | TextCell pystr | TimestampCell datetime

definition column :: "string \<Rightarrow> row \<Rightarrow> cell option" where
  "column name r =
     (if name = ''id'' then Some (IntCell (id_col r))
      else if name = ''string'' then Some (TextCell (string_col r))
      else if name = ''date_added'' then Some (TimestampCell (date_added_col r))
      else None)"

text \<open>The primary key that the base class gives every model.\<close>

definition primary_key :: constraint where
  "primary_key = UniqueConstraint [''id''] ''sentry_metricskeyindexer_pkey''"

text \<open>Two rows collide under a uniqueness constraint when they agree on all its columns.\<close>

fun collide :: "constraint \<Rightarrow> row \<Rightarrow> row \<Rightarrow> bool" where
  "collide (UniqueConstraint fs name) r r' = list_all (\<lambda>f. column f r = column f r') fs"

fun constraint_name :: "constraint \<Rightarrow> string" where
  "constraint_name (UniqueConstraint fs name) = name"

text \<open>The name of the first constraint that a new row would violate, if any.\<close>

fun violated :: "constraint list \<Rightarrow> row \<Rightarrow> row list \<Rightarrow> string option" where
  "violated [] r t = None"
| "violated (c # cs) r t =
     (if list_ex (collide c r) t then Some (constraint_name c) else violated cs r t)"

text \<open>Whether a string fits a column: a \<^verbatim>\<open>CharField\<close> becomes \<^verbatim>\<open>varchar(max_length)\<close>.\<close>

fun fits :: "field \<Rightarrow> pystr \<Rightarrow> bool" where
  "fits (CharField max_length) s = (length s \<le> max_length)"
| "fits (DateTimeField d) s = True"

text \<open>The value a field takes when the caller gives none, at clock reading \<open>now\<close>.\<close>

fun get_default :: "field \<Rightarrow> datetime \<Rightarrow> datetime option" where
  "get_default (DateTimeField TimezoneNow) now = Some now"
| "get_default (DateTimeField NOT_PROVIDED) now = None"
| "get_default (CharField max_length) now = None"

text \<open>
  Creating a row at clock reading \<open>now\<close> with identifier \<open>i\<close>, string \<open>s\<close> and an
  optional explicit timestamp \<open>d\<close>. The checks, in order: the timestamp is present, the
  string fits its column, no constraint is violated. A failed insertion leaves the table
  as it was.
\<close>

definition insert_row ::
  "datetime \<Rightarrow> int \<Rightarrow> pystr \<Rightarrow> datetime option \<Rightarrow> database \<Rightarrow> (error + unit) \<times> database" where
  "insert_row now i s d db =
     (if \<not> reachable db then (Inl OperationalError, db)
      else
        (case (case d of Some t \<Rightarrow> Some t | None \<Rightarrow> get_default date_added_field now) of
           None \<Rightarrow> (Inl (IntegrityError ''date_added''), db)
         | Some t \<Rightarrow>
             (let r = \<lparr>id_col = i, string_col = s, date_added_col = t\<rparr>;
                  db1 = db\<lparr>statements := statements db @ [InsertInto (db_table Meta) r]\<rparr>
              in if \<not> fits string_field s then (Inl DataError, db1)
                 else
                   (case violated (primary_key # constraints Meta) r (table db1) of
                      Some name \<Rightarrow> (Inl (IntegrityError name), db1)
                    | None \<Rightarrow> (Inr (), db1\<lparr>table := table db1 @ [r]\<rparr>)))))"

text \<open>Deleting the row with identifier \<open>i\<close>, if there is one.\<close>

definition delete_row :: "int \<Rightarrow> database \<Rightarrow> (error + unit) \<times> database" where
  "delete_row i db =
     (if \<not> reachable db then (Inl OperationalError, db)
      else (Inr (),
            db\<lparr>table := filter (\<lambda>r. id_col r \<noteq> i) (table db),
               statements := statements db @ [DeleteFrom (db_table Meta) i]\<rparr>))"

subsection \<open>Histories\<close>

text \<open>
  What can happen to the database over time: a call of \<open>get_next_values\<close>, an insertion,
  a deletion, and the server going away or coming back.
\<close>

datatype operation =
    GetNextValues int
  | InsertRow datetime int pystr "datetime option"
  | DeleteRow int
  | Connectivity bool

text \<open>
  Running a list of operations in order. The first component collects, in order, every
  row that a successful call of \<open>get_next_values\<close> returned to its caller; a failed
  operation returns nothing and the history goes on from the state it left.

  A history is sequential: one operation ends before the next begins. Calls that overlap
  in time are modelled separately, further down.
\<close>

fun history :: "operation list \<Rightarrow> database \<Rightarrow> pyobj list \<times> database" where
  "history [] db = ([], db)"
| "history (GetNextValues num # ops) db =
     (case get_next_values num db of
        (res, db') \<Rightarrow>
          (case history ops db' of
             (out, db'') \<Rightarrow> ((case res of Inl e \<Rightarrow> [] | Inr rows \<Rightarrow> rows) @ out, db'')))"
| "history (InsertRow now i s d # ops) db = history ops (snd (insert_row now i s d db))"
| "history (DeleteRow i # ops) db = history ops (snd (delete_row i db))"
| "history (Connectivity up # ops) db = history ops (db\<lparr>reachable := up\<rparr>)"

subsection \<open>Two calls that overlap in time\<close>

text \<open>
  When two callers run \<open>get_next_values\<close> at the same time, the server runs their two
  statements side by side. The unit that the server keeps whole is a single \<open>nextval\<close>:
  the rows of the two statements are evaluated in some order that the callers do not
  control.

  A session is a statement in progress: the rows of its series that are still to be
  evaluated, and its result so far (or the error that ended it).
\<close>

type_synonym session = "int list \<times> (error + pyobj list)"

text \<open>
  One step of a session: the next row of its series is evaluated, which is one
  \<open>nextval\<close>. A session that is finished or has failed does nothing.
\<close>

fun session_step :: "string \<Rightarrow> session \<Rightarrow> database \<Rightarrow> session \<times> database" where
  "session_step name ([], out) db = (([], out), db)"
| "session_step name (g # gs, Inl e) db = (([], Inl e), db)"
| "session_step name (g # gs, Inr rows) db =
     (case nextval name db of
        (Inl e, db') \<Rightarrow> (([], Inl e), db')
      | (Inr v, db') \<Rightarrow> ((gs, Inr (rows @ [PyTuple [PyInt v]])), db'))"

text \<open>Running a session to its end without interruption.\<close>

fun session_finish :: "string \<Rightarrow> session \<Rightarrow> database \<Rightarrow> (error + pyobj list) \<times> database" where
  "session_finish name ([], out) db = (out, db)"
| "session_finish name (g # gs, Inl e) db = (Inl e, db)"
| "session_finish name (g # gs, Inr rows) db =
     (case nextval name db of
        (Inl e, db') \<Rightarrow> (Inl e, db')
      | (Inr v, db') \<Rightarrow> session_finish name (gs, Inr (rows @ [PyTuple [PyInt v]])) db')"

text \<open>
  Two sessions under a schedule. Each entry of the schedule gives the next step to the
  first session (\<open>True\<close>) or to the second (\<open>False\<close>); when the schedule is used up,
  the first session runs to its end and then the second. Every list of booleans is a
  schedule, and every order of the steps of two statements is given by some schedule.
\<close>

fun interleave ::
  "string \<Rightarrow> bool list \<Rightarrow> session \<Rightarrow> session \<Rightarrow> database \<Rightarrow>
   ((error + pyobj list) \<times> (error + pyobj list)) \<times> database" where
  "interleave name [] a b db =
     (case session_finish name a db of
        (ra, db') \<Rightarrow>
          (case session_finish name b db' of
             (rb, db'') \<Rightarrow> ((ra, rb), db'')))"
| "interleave name (True # sched) a b db =
     (case session_step name a db of (a', db') \<Rightarrow> interleave name sched a' b db')"
| "interleave name (False # sched) a b db =
     (case session_step name b db of (b', db') \<Rightarrow> interleave name sched a b' db')"

text \<open>
  Two calls \<open>get_next_values num_a\<close> and \<open>get_next_values num_b\<close> that overlap, under a
  schedule. This is \<open>get_next_values\<close> twice, with the same steps (open the cursor, send
  the statement, resolve the sequence, evaluate the rows, fetch them all), except that
  the rows of the two statements are evaluated in the order of the schedule. The result
  is what the first and the second caller get back.
\<close>

definition concurrent_get_next_values ::
  "bool list \<Rightarrow> int \<Rightarrow> int \<Rightarrow> database \<Rightarrow>
   ((error + pyobj list) \<times> (error + pyobj list)) \<times> database" where
  "concurrent_get_next_values sched num_a num_b db =
     (case open_cursor db of
        Inl e \<Rightarrow> ((Inl e, Inl e), db)
      | Inr connection \<Rightarrow>
          (let db1 = db\<lparr>statements := statements db @
                        [SelectNextval id_seq num_a, SelectNextval id_seq num_b]\<rparr>
           in case sequences db1 id_seq of
                None \<Rightarrow> ((Inl ProgrammingError, Inl ProgrammingError), db1)
              | Some _ \<Rightarrow>
                  interleave id_seq sched
                    (generate_series 1 num_a, Inr []) (generate_series 1 num_b, Inr []) db1))"

text \<open>The rows a caller holds after its call: none if the call raised.\<close>

fun returned :: "error + pyobj list \<Rightarrow> pyobj list" where
  "returned (Inl e) = []"
| "returned (Inr rows) = rows"

text \<open>
  Two lists of rows are separate below \<open>l\<close> when neither repeats a row, they share no
  row, and every row wraps an integer that is at most \<open>l\<close>.
\<close>

definition separate :: "int \<Rightarrow> pyobj list \<Rightarrow> pyobj list \<Rightarrow> bool" where
  "separate l ra rb =
     (distinct ra \<and> distinct rb \<and> set ra \<inter> set rb = {} \<and>
      (\<forall>r \<in> set ra \<union> set rb. \<exists>v\<le>l. r = PyTuple [PyInt v]))"

text \<open>A database that has just been set up: an empty table and a sequence at its start.\<close>

definition fresh_database :: database where
  "fresh_database =
     \<lparr>reachable = True,
      sequences = [id_seq \<mapsto> \<lparr>last_value = 0, max_value = 9223372036854775807\<rparr>],
      table = [],
      statements = []\<rparr>"

text \<open>The same database with its sequence standing at \<open>v\<close>.\<close>

definition database_at :: "int \<Rightarrow> database" where
  "database_at v =
     fresh_database\<lparr>sequences := [id_seq \<mapsto> \<lparr>last_value = v, max_value = 9223372036854775807\<rparr>]\<rparr>"

text \<open>\<^verbatim>\<open>isinstance(x, int)\<close>.\<close>

fun is_int :: "pyobj \<Rightarrow> bool" where
  "is_int (PyInt v) = True"
| "is_int (PyTuple xs) = False"

section \<open>Properties of the query\<close>

lemmas run_defs = get_next_values_def open_cursor_def execute_def fetchall_def
  generate_series_def nextval_def fresh_database_def database_at_def

text \<open>
  As long as the sequence has room for one value per row of the series, the statement
  succeeds, returns the next values in order, one per row, and leaves the sequence at the
  last of them.
\<close>

lemma select_nextval_ok:
  "sequences db name = Some s \<Longrightarrow> last_value s + int (length gs) \<le> max_value s \<Longrightarrow>
   select_nextval name gs db =
     (Inr (map (\<lambda>v. PyTuple [PyInt v]) [last_value s + 1 .. last_value s + int (length gs)]),
      db\<lparr>sequences := (sequences db)(name \<mapsto> s\<lparr>last_value := last_value s + int (length gs)\<rparr>)\<rparr>)"
proof (induction gs arbitrary: db s)
  case Nil
  then show ?case by (simp add: map_upd_triv)
next
  case (Cons g gs)
  let ?s' = "s\<lparr>last_value := last_value s + 1\<rparr>"
  let ?db' = "db\<lparr>sequences := (sequences db)(name \<mapsto> ?s')\<rparr>"
  from Cons.prems have nv: "nextval name db = (Inr (last_value s + 1), ?db')"
    by (simp add: nextval_def)
  have seq': "sequences ?db' name = Some ?s'" by simp
  from Cons.prems have bound: "last_value ?s' + int (length gs) \<le> max_value ?s'" by simp
  have up: "[last_value s + 1 .. last_value s + int (length (g # gs))] =
        (last_value s + 1) # [last_value ?s' + 1 .. last_value ?s' + int (length gs)]"
    by (simp add: upto_rec1 add.commute add.left_commute)
  have ih: "select_nextval name gs ?db' =
      (Inr (map (\<lambda>v. PyTuple [PyInt v]) [last_value ?s' + 1 .. last_value ?s' + int (length gs)]),
       ?db'\<lparr>sequences := (sequences ?db')(name \<mapsto> ?s'\<lparr>last_value := last_value ?s' + int (length gs)\<rparr>)\<rparr>)"
    by (rule Cons.IH [OF seq' bound])
  have fin: "?db'\<lparr>sequences := (sequences ?db')(name \<mapsto> ?s'\<lparr>last_value := last_value ?s' + int (length gs)\<rparr>)\<rparr>
      = db\<lparr>sequences := (sequences db)(name \<mapsto> s\<lparr>last_value := last_value s + int (length (g # gs))\<rparr>)\<rparr>"
    by (simp add: add.commute add.left_commute)
  show ?case
    apply (subst select_nextval.simps)
    apply (subst nv)
    apply (simp only: prod.case sum.case)
    apply (subst ih)
    apply (simp only: prod.case sum.case up fin list.map)
    done
qed

text \<open>The two outcomes of \<open>nextval\<close> on a sequence that exists.\<close>

lemma nextval_cases:
  assumes "sequences db name = Some s" and "nextval name db = (res, db')"
  shows "(last_value s < max_value s \<and> res = Inr (last_value s + 1) \<and>
          db' = db\<lparr>sequences := (sequences db)(name \<mapsto> s\<lparr>last_value := last_value s + 1\<rparr>)\<rparr>)
       \<or> (\<not> last_value s < max_value s \<and> res = Inl DataError \<and> db' = db)"
  using assms by (auto simp: nextval_def split: if_splits)

text \<open>
  Whatever the outcome, the statement touches nothing but the sequence, never moves it
  back, and when it succeeds its rows are exactly the values between the old and the new
  position, one per row.
\<close>

lemma select_nextval_result:
  assumes "sequences db name = Some s" and "select_nextval name gs db = (res, db')"
  shows "\<exists>s'. sequences db' name = Some s' \<and> max_value s' = max_value s \<and>
           last_value s \<le> last_value s' \<and>
           table db' = table db \<and> statements db' = statements db \<and>
           reachable db' = reachable db \<and>
           (\<forall>rows. res = Inr rows \<longrightarrow>
              rows = map (\<lambda>v. PyTuple [PyInt v]) [last_value s + 1 .. last_value s'])"
  using assms
proof (induction gs arbitrary: db s res db')
  case Nil
  then show ?case by auto
next
  case (Cons g gs)
  obtain r1 db1 where nv: "nextval name db = (r1, db1)" by (cases "nextval name db")
  from nextval_cases [OF Cons.prems(1) nv]
  show ?case
  proof (elim disjE conjE)
    assume lt: "last_value s < max_value s"
      and r1: "r1 = Inr (last_value s + 1)"
      and db1: "db1 = db\<lparr>sequences := (sequences db)(name \<mapsto> s\<lparr>last_value := last_value s + 1\<rparr>)\<rparr>"
    let ?s1 = "s\<lparr>last_value := last_value s + 1\<rparr>"
    have seq1: "sequences db1 name = Some ?s1" by (simp add: db1)
    obtain r2 db2 where rest: "select_nextval name gs db1 = (r2, db2)"
      by (cases "select_nextval name gs db1")
    from Cons.IH [OF seq1 rest] obtain s' where
      s': "sequences db2 name = Some s'" "max_value s' = max_value ?s1"
          "last_value ?s1 \<le> last_value s'"
          "table db2 = table db1" "statements db2 = statements db1"
          "reachable db2 = reachable db1"
      and rows: "\<And>rows. r2 = Inr rows \<Longrightarrow>
          rows = map (\<lambda>v. PyTuple [PyInt v]) [last_value ?s1 + 1 .. last_value s']"
      by blast
    from Cons.prems(2) nv r1 rest
    have out: "db' = db2"
      "res = (case r2 of Inl e \<Rightarrow> Inl e
              | Inr rows \<Rightarrow> Inr (PyTuple [PyInt (last_value s + 1)] # rows))"
      by (auto split: sum.splits)
    have up: "[last_value s + 1 .. last_value s'] =
        (last_value s + 1) # [last_value ?s1 + 1 .. last_value s']"
      using s'(3) by (simp add: upto_rec1)
    show ?thesis
    proof (intro exI [of _ s'] conjI allI impI)
      fix rows assume "res = Inr rows"
      with out(2) obtain rows2 where r2: "r2 = Inr rows2"
        and rws: "rows = PyTuple [PyInt (last_value s + 1)] # rows2"
        by (cases r2) auto
      from rows [OF r2] rws up
      show "rows = map (\<lambda>v. PyTuple [PyInt v]) [last_value s + 1 .. last_value s']"
        by simp
    qed (use s' out db1 in simp_all)
  next
    assume "\<not> last_value s < max_value s" and r1: "r1 = Inl DataError" and db1: "db1 = db"
    with Cons.prems nv have "db' = db" "res = Inl DataError" by auto
    with Cons.prems(1) show ?thesis by auto
  qed
qed

subsection \<open>The three ways a call can go\<close>

lemma get_next_values_unreachable:
  "\<not> reachable db \<Longrightarrow> get_next_values num db = (Inl OperationalError, db)"
  by (simp add: get_next_values_def open_cursor_def)

lemma get_next_values_no_sequence:
  "reachable db \<Longrightarrow> sequences db id_seq = None \<Longrightarrow>
   get_next_values num db =
     (Inl ProgrammingError, db\<lparr>statements := statements db @ [SelectNextval id_seq num]\<rparr>)"
  by (simp add: get_next_values_def open_cursor_def execute_def)

lemma get_next_values_select:
  "reachable db \<Longrightarrow> sequences db id_seq = Some s \<Longrightarrow>
   get_next_values num db =
     select_nextval id_seq (generate_series 1 num)
       (db\<lparr>statements := statements db @ [SelectNextval id_seq num]\<rparr>)"
  by (simp add: get_next_values_def open_cursor_def execute_def fetchall_def
      split: prod.splits sum.splits)

lemma get_next_values_ok:
  assumes "reachable db" and "sequences db id_seq = Some s" and "0 \<le> num"
    and "last_value s + num \<le> max_value s"
  shows "get_next_values num db =
     (Inr (map (\<lambda>v. PyTuple [PyInt v]) [last_value s + 1 .. last_value s + num]),
      db\<lparr>sequences := (sequences db)(id_seq \<mapsto> s\<lparr>last_value := last_value s + num\<rparr>),
         statements := statements db @ [SelectNextval id_seq num]\<rparr>)"
proof -
  let ?db1 = "db\<lparr>statements := statements db @ [SelectNextval id_seq num]\<rparr>"
  let ?gs = "generate_series 1 num"
  have len: "int (length ?gs) = num" using assms(3) by (simp add: generate_series_def)
  have seq1: "sequences ?db1 id_seq = Some s" using assms(2) by simp
  have bound: "last_value s + int (length ?gs) \<le> max_value s" using assms(4) len by simp
  show ?thesis
    unfolding get_next_values_select [OF assms(1,2)] select_nextval_ok [OF seq1 bound] len
    by simp
qed

lemma get_next_values_frame:
  "table (snd (get_next_values num db)) = table db \<and>
   reachable (snd (get_next_values num db)) = reachable db \<and>
   statements (snd (get_next_values num db)) =
     (if reachable db then statements db @ [SelectNextval id_seq num] else statements db)"
proof (cases "reachable db")
  case False
  then show ?thesis by (simp add: get_next_values_unreachable)
next
  case True
  show ?thesis
  proof (cases "sequences db id_seq")
    case None
    with True show ?thesis by (simp add: get_next_values_no_sequence)
  next
    case (Some s)
    let ?db1 = "db\<lparr>statements := statements db @ [SelectNextval id_seq num]\<rparr>"
    obtain res db' where r: "select_nextval id_seq (generate_series 1 num) ?db1 = (res, db')"
      by (cases "select_nextval id_seq (generate_series 1 num) ?db1")
    have "sequences ?db1 id_seq = Some s" using Some by simp
    from select_nextval_result [OF this r] True
    show ?thesis by (auto simp: get_next_values_select [OF True Some] r)
  qed
qed

subsection \<open>The sequence over a history\<close>

text \<open>
  A call never moves the sequence back, and the rows of a successful call are exactly the
  values between the position it found and the position it left.
\<close>

lemma get_next_values_result:
  assumes "sequences db id_seq = Some s" and "get_next_values num db = (res, db')"
  shows "\<exists>s'. sequences db' id_seq = Some s' \<and> max_value s' = max_value s \<and>
           last_value s \<le> last_value s' \<and>
           (\<forall>rows. res = Inr rows \<longrightarrow>
              rows = map (\<lambda>v. PyTuple [PyInt v]) [last_value s + 1 .. last_value s'])"
proof (cases "reachable db")
  case False
  with assms show ?thesis by (auto simp: get_next_values_unreachable)
next
  case True
  let ?db1 = "db\<lparr>statements := statements db @ [SelectNextval id_seq num]\<rparr>"
  have seq1: "sequences ?db1 id_seq = Some s" using assms(1) by simp
  from assms(2) have "select_nextval id_seq (generate_series 1 num) ?db1 = (res, db')"
    by (simp add: get_next_values_select [OF True assms(1)])
  from select_nextval_result [OF seq1 this] show ?thesis by blast
qed

lemma get_next_values_without_sequence:
  assumes "sequences db id_seq = None" and "get_next_values num db = (res, db')"
  shows "sequences db' id_seq = None \<and> (\<exists>e. res = Inl e)"
  using assms
  by (cases "reachable db")
    (auto simp: get_next_values_unreachable get_next_values_no_sequence)

lemma insert_row_sequences: "sequences (snd (insert_row now i s d db)) = sequences db"
  by (simp add: insert_row_def Let_def split: option.splits)

lemma delete_row_sequences: "sequences (snd (delete_row i db)) = sequences db"
  by (simp add: delete_row_def)

lemma history_without_sequence:
  "sequences db id_seq = None \<Longrightarrow> fst (history ops db) = []"
proof (induction ops db rule: history.induct)
  case (2 num ops db)
  obtain res db1 where g: "get_next_values num db = (res, db1)"
    by (cases "get_next_values num db")
  from get_next_values_without_sequence [OF "2.prems" g]
  have n1: "sequences db1 id_seq = None" and e: "\<exists>e. res = Inl e" by simp_all
  from "2.IH" [OF g [symmetric] n1] e g show ?case
    by (auto split: prod.splits)
qed (simp_all add: insert_row_sequences delete_row_sequences)

lemma history_ascending:
  assumes "sequences db id_seq = Some s" and "history ops db = (out, db')"
  shows "\<exists>s' vs. sequences db' id_seq = Some s' \<and> last_value s \<le> last_value s' \<and>
           out = map (\<lambda>v. PyTuple [PyInt v]) vs \<and> sorted_wrt (<) vs \<and>
           (\<forall>v\<in>set vs. last_value s < v \<and> v \<le> last_value s')"
  using assms
proof (induction ops db arbitrary: s out db' rule: history.induct)
  case (1 db)
  then show ?case by (intro exI [of _ s] exI [of _ "[]"]) auto
next
  case (2 num ops db)
  obtain res db1 where g: "get_next_values num db = (res, db1)"
    by (cases "get_next_values num db")
  obtain out2 db2 where h: "history ops db1 = (out2, db2)"
    by (cases "history ops db1")
  from get_next_values_result [OF "2.prems"(1) g] obtain s1 where
    s1: "sequences db1 id_seq = Some s1" "last_value s \<le> last_value s1"
    and rows: "\<And>rows. res = Inr rows \<Longrightarrow>
        rows = map (\<lambda>v. PyTuple [PyInt v]) [last_value s + 1 .. last_value s1]"
    by blast
  from "2.IH" [OF g [symmetric] s1(1) h] obtain s' vs2 where
    s': "sequences db2 id_seq = Some s'" "last_value s1 \<le> last_value s'"
    and vs2: "out2 = map (\<lambda>v. PyTuple [PyInt v]) vs2" "sorted_wrt (<) vs2"
      "\<forall>v\<in>set vs2. last_value s1 < v \<and> v \<le> last_value s'"
    by blast
  define vs1 where "vs1 = (case res of Inl e \<Rightarrow> [] | Inr rows \<Rightarrow> [last_value s + 1 .. last_value s1])"
  have r1: "(case res of Inl e \<Rightarrow> [] | Inr rows \<Rightarrow> rows) = map (\<lambda>v. PyTuple [PyInt v]) vs1"
    using rows by (cases res) (simp_all add: vs1_def)
  have b1: "\<forall>v\<in>set vs1. last_value s < v \<and> v \<le> last_value s1"
    by (cases res) (auto simp: vs1_def)
  have so1: "sorted_wrt (<) vs1"
    by (cases res) (simp_all add: vs1_def)
  from "2.prems"(2) g h have out: "out = (case res of Inl e \<Rightarrow> [] | Inr rows \<Rightarrow> rows) @ out2"
    and db': "db' = db2" by simp_all
  show ?case
  proof (intro exI [of _ s'] exI [of _ "vs1 @ vs2"] conjI)
    show "sequences db' id_seq = Some s'" using s' db' by simp
    show "last_value s \<le> last_value s'" using s1 s' by simp
    show "out = map (\<lambda>v. PyTuple [PyInt v]) (vs1 @ vs2)" using out r1 vs2(1) by simp
    show "sorted_wrt (<) (vs1 @ vs2)"
      using so1 vs2(2) b1 vs2(3) by (fastforce simp: sorted_wrt_append)
    show "\<forall>v\<in>set (vs1 @ vs2). last_value s < v \<and> v \<le> last_value s'"
      using b1 vs2(3) s1(2) s'(2) by fastforce
  qed
next
  case (3 now i str d ops db)
  from "3.prems" show ?case
    by (intro "3.IH") (simp_all add: insert_row_sequences)
next
  case (4 i ops db)
  from "4.prems" show ?case
    by (intro "4.IH") (simp_all add: delete_row_sequences)
next
  case (5 up ops db)
  from "5.prems" show ?case
    by (intro "5.IH") simp_all
qed

subsection \<open>Insertion\<close>

text \<open>What the constraint check comes to for this table.\<close>

lemma violated_table:
  "violated (primary_key # constraints Meta) r t =
     (if id_col r \<in> id_col ` set t then Some ''sentry_metricskeyindexer_pkey''
      else if string_col r \<in> string_col ` set t then Some ''unique_string''
      else None)"
  by (auto simp: primary_key_def Meta_def column_def list_ex_iff)

lemma insert_row_reachable:
  assumes "reachable db"
  shows "insert_row now i s d db =
     (let r = \<lparr>id_col = i, string_col = s,
                date_added_col = (case d of None \<Rightarrow> now | Some t \<Rightarrow> t)\<rparr>;
          db1 = db\<lparr>statements := statements db @ [InsertInto (db_table Meta) r]\<rparr>
      in if 200 < length s then (Inl DataError, db1)
         else if i \<in> id_col ` set (table db)
           then (Inl (IntegrityError ''sentry_metricskeyindexer_pkey''), db1)
         else if s \<in> string_col ` set (table db)
           then (Inl (IntegrityError ''unique_string''), db1)
         else (Inr (), db1\<lparr>table := table db @ [r]\<rparr>))"
  using assms
  by (cases d)
    (simp_all add: insert_row_def Let_def violated_table string_field_def date_added_field_def
      del: violated.simps)

lemma insert_row_unreachable:
  "\<not> reachable db \<Longrightarrow> insert_row now i s d db = (Inl OperationalError, db)"
  by (simp add: insert_row_def)

lemma insert_row_table:
  "table (snd (insert_row now i s d db)) = table db \<or>
   (length s \<le> 200 \<and> i \<notin> id_col ` set (table db) \<and> s \<notin> string_col ` set (table db) \<and>
    table (snd (insert_row now i s d db)) =
      table db @ [\<lparr>id_col = i, string_col = s,
                   date_added_col = (case d of None \<Rightarrow> now | Some t \<Rightarrow> t)\<rparr>])"
proof (cases "reachable db")
  case True
  then show ?thesis by (simp add: insert_row_reachable Let_def)
next
  case False
  then show ?thesis by (simp add: insert_row_unreachable)
qed

lemma history_table_invariant:
  assumes init: "I (table db)"
    and del: "\<And>t Q. I t \<Longrightarrow> I (filter Q t)"
    and ins: "\<And>now i s d db. I (table db) \<Longrightarrow> I (table (snd (insert_row now i s d db)))"
  shows "I (table (snd (history ops db)))"
  using init
proof (induction ops db rule: history.induct)
  case (1 db)
  then show ?case by simp
next
  case (2 num ops db)
  obtain res db1 where g: "get_next_values num db = (res, db1)"
    by (cases "get_next_values num db")
  have "table db1 = table db" using get_next_values_frame [of num db] g by simp
  with "2.prems" have "I (table db1)" by simp
  from "2.IH" [OF g [symmetric] this] g show ?case
    by (cases "history ops db1") simp
next
  case (3 now i s d ops db)
  from "3.IH" [OF ins [OF "3.prems"]] show ?case by simp
next
  case (4 i ops db)
  have "I (table (snd (delete_row i db)))"
    using "4.prems" by (auto simp: delete_row_def intro: del)
  from "4.IH" [OF this] show ?case by simp
next
  case (5 up ops db)
  from "5.prems" have "I (table (db\<lparr>reachable := up\<rparr>))" by simp
  from "5.IH" [OF this] show ?case by simp
qed

lemma insert_row_keeps_strings_distinct:
  "distinct (map string_col (table db)) \<Longrightarrow>
   distinct (map string_col (table (snd (insert_row now i s d db))))"
  using insert_row_table [of now i s d db] by auto

lemma insert_row_keeps_strings_short:
  "list_all (\<lambda>r. length (string_col r) \<le> 200) (table db) \<Longrightarrow>
   list_all (\<lambda>r. length (string_col r) \<le> 200) (table (snd (insert_row now i s d db)))"
  using insert_row_table [of now i s d db] by auto

subsection \<open>Overlapping calls\<close>

text \<open>
  Every step of either session keeps the two results separate below the position of the
  sequence: a new value lies above everything handed out before.
\<close>

lemma separate_sym: "separate l ra rb \<Longrightarrow> separate l rb ra"
  unfolding separate_def by (simp add: Int_commute Un_commute)

lemma separate_mono:
  assumes "separate l ra rb" and "l \<le> l'"
  shows "separate l' ra rb"
proof -
  have "\<exists>v\<le>l'. r = PyTuple [PyInt v]" if "r \<in> set ra \<union> set rb" for r
  proof -
    from assms(1) that obtain v where "v \<le> l" "r = PyTuple [PyInt v]"
      unfolding separate_def by blast
    with assms(2) show ?thesis by (intro exI [of _ v]) simp
  qed
  with assms(1) show ?thesis unfolding separate_def by blast
qed

lemma separate_drop: "separate l ra rb \<Longrightarrow> separate l [] rb"
  unfolding separate_def by simp

lemma separate_snoc:
  assumes "separate l ra rb"
  shows "separate (l + 1) (ra @ [PyTuple [PyInt (l + 1)]]) rb"
proof -
  let ?w = "PyTuple [PyInt (l + 1)]"
  have below: "\<exists>v\<le>l. r = PyTuple [PyInt v]" if "r \<in> set ra \<union> set rb" for r
    using assms that unfolding separate_def by blast
  have fresh: "?w \<notin> set ra \<union> set rb"
  proof
    assume "?w \<in> set ra \<union> set rb"
    from below [OF this] show False by simp
  qed
  have "\<exists>v\<le>l + 1. r = PyTuple [PyInt v]" if "r \<in> set (ra @ [?w]) \<union> set rb" for r
  proof (cases "r = ?w")
    case True
    then show ?thesis by simp
  next
    case False
    with that have "r \<in> set ra \<union> set rb" by auto
    from below [OF this] obtain v where "v \<le> l" "r = PyTuple [PyInt v]" by blast
    then show ?thesis by (intro exI [of _ v]) simp
  qed
  moreover have "distinct (ra @ [?w])" using assms fresh unfolding separate_def by simp
  moreover have "distinct rb" using assms unfolding separate_def by simp
  moreover have "set (ra @ [?w]) \<inter> set rb = {}" using assms fresh unfolding separate_def by auto
  ultimately show ?thesis unfolding separate_def by blast
qed


lemma session_step_separate:
  assumes seq: "sequences db name = Some s"
    and sep: "separate (last_value s) (returned out) other"
    and st: "session_step name (todo, out) db = ((todo', out'), db')"
  shows "\<exists>s'. sequences db' name = Some s' \<and> max_value s' = max_value s \<and>
           last_value s \<le> last_value s' \<and> separate (last_value s') (returned out') other"
proof (cases todo)
  case Nil
  with st have "out' = out" "db' = db" by simp_all
  with seq sep show ?thesis by simp
next
  case (Cons g gs)
  show ?thesis
  proof (cases out)
    case (Inl e)
    with Cons st have "out' = Inl e" "db' = db" by simp_all
    with seq sep Inl show ?thesis by simp
  next
    case (Inr rows)
    obtain r1 db1 where nv: "nextval name db = (r1, db1)" by (cases "nextval name db")
    from nextval_cases [OF seq nv] show ?thesis
    proof (elim disjE conjE)
      assume r1: "r1 = Inr (last_value s + 1)"
        and db1: "db1 = db\<lparr>sequences := (sequences db)(name \<mapsto> s\<lparr>last_value := last_value s + 1\<rparr>)\<rparr>"
      from st Cons Inr nv r1
      have o: "out' = Inr (rows @ [PyTuple [PyInt (last_value s + 1)]])" and d: "db' = db1"
        by simp_all
      from sep Inr have "separate (last_value s) rows other" by simp
      from separate_snoc [OF this]
      have "separate (last_value s + 1) (returned out') other" by (simp add: o)
      then show ?thesis by (simp add: d db1)
    next
      assume r1: "r1 = Inl DataError" and db1: "db1 = db"
      from st Cons Inr nv r1 have o: "out' = Inl DataError" and d: "db' = db1" by simp_all
      from separate_drop [OF sep] have "separate (last_value s) (returned out') other"
        by (simp add: o)
      with seq show ?thesis by (simp add: d db1)
    qed
  qed
qed

lemma session_finish_separate:
  assumes "sequences db name = Some s"
    and "separate (last_value s) (returned out) other"
    and "session_finish name (todo, out) db = (out', db')"
  shows "\<exists>s'. sequences db' name = Some s' \<and> max_value s' = max_value s \<and>
           last_value s \<le> last_value s' \<and> separate (last_value s') (returned out') other"
  using assms
proof (induction todo arbitrary: out db s)
  case Nil
  then have "out' = out" "db' = db" by simp_all
  with Nil.prems(1,2) show ?case by simp
next
  case (Cons g gs)
  show ?case
  proof (cases out)
    case (Inl e)
    with Cons.prems(3) have "out' = Inl e" "db' = db" by simp_all
    with Cons.prems(1,2) Inl show ?thesis by simp
  next
    case (Inr rows)
    obtain r1 db1 where nv: "nextval name db = (r1, db1)" by (cases "nextval name db")
    from nextval_cases [OF Cons.prems(1) nv] show ?thesis
    proof (elim disjE conjE)
      assume r1: "r1 = Inr (last_value s + 1)"
        and db1: "db1 = db\<lparr>sequences := (sequences db)(name \<mapsto> s\<lparr>last_value := last_value s + 1\<rparr>)\<rparr>"
      let ?s1 = "s\<lparr>last_value := last_value s + 1\<rparr>"
      let ?out1 = "Inr (rows @ [PyTuple [PyInt (last_value s + 1)]]) :: error + pyobj list"
      have seq1: "sequences db1 name = Some ?s1" by (simp add: db1)
      from Cons.prems(2) Inr have "separate (last_value s) rows other" by simp
      from separate_snoc [OF this]
      have sep1: "separate (last_value ?s1) (returned ?out1) other" by simp
      have fin: "session_finish name (gs, ?out1) db1 = (out', db')"
        using Cons.prems(3) Inr nv r1 by simp
      from Cons.IH [OF seq1 sep1 fin] obtain s' where
        "sequences db' name = Some s'" "max_value s' = max_value ?s1"
        "last_value ?s1 \<le> last_value s'" "separate (last_value s') (returned out') other"
        by blast
      then show ?thesis by (intro exI [of _ s']) simp
    next
      assume r1: "r1 = Inl DataError" and db1: "db1 = db"
      from Cons.prems(3) Inr nv r1 have o: "out' = Inl DataError" and d: "db' = db1"
        by simp_all
      from separate_drop [OF Cons.prems(2)]
      have "separate (last_value s) (returned out') other" by (simp add: o)
      with Cons.prems(1) show ?thesis by (simp add: d db1)
    qed
  qed
qed


lemma interleave_separate:
  assumes "sequences db name = Some s"
    and "separate (last_value s) (returned oa) (returned ob)"
    and "interleave name sched (ta, oa) (tb, ob) db = ((ra, rb), db')"
  shows "\<exists>s'. sequences db' name = Some s' \<and> separate (last_value s') (returned ra) (returned rb)"
  using assms
proof (induction sched arbitrary: ta oa tb ob db s)
  case Nil
  obtain ra1 db1 where fa: "session_finish name (ta, oa) db = (ra1, db1)"
    by (cases "session_finish name (ta, oa) db")
  obtain rb1 db2 where fb: "session_finish name (tb, ob) db1 = (rb1, db2)"
    by (cases "session_finish name (tb, ob) db1")
  from Nil.prems(3) fa fb have res: "ra = ra1" "rb = rb1" "db' = db2" by simp_all
  from session_finish_separate [OF Nil.prems(1,2) fa]
  obtain s1 where s1: "sequences db1 name = Some s1"
    "separate (last_value s1) (returned ra1) (returned ob)" by blast
  from session_finish_separate [OF s1(1) separate_sym [OF s1(2)] fb]
  obtain s2 where s2: "sequences db2 name = Some s2"
    "separate (last_value s2) (returned rb1) (returned ra1)" by blast
  from s2(1) separate_sym [OF s2(2)] res show ?case by simp
next
  case (Cons x sched)
  show ?case
  proof (cases x)
    case True
    obtain ta' oa' db1 where st: "session_step name (ta, oa) db = ((ta', oa'), db1)"
      by (cases "session_step name (ta, oa) db") auto
    from session_step_separate [OF Cons.prems(1,2) st]
    obtain s1 where s1: "sequences db1 name = Some s1"
      "separate (last_value s1) (returned oa') (returned ob)" by blast
    from Cons.prems(3) True st
    have "interleave name sched (ta', oa') (tb, ob) db1 = ((ra, rb), db')" by simp
    from Cons.IH [OF s1 this] show ?thesis .
  next
    case False
    obtain tb' ob' db1 where st: "session_step name (tb, ob) db = ((tb', ob'), db1)"
      by (cases "session_step name (tb, ob) db") auto
    from session_step_separate [OF Cons.prems(1) separate_sym [OF Cons.prems(2)] st]
    obtain s1 where s1: "sequences db1 name = Some s1"
      "separate (last_value s1) (returned ob') (returned oa)" by blast
    from Cons.prems(3) False st
    have "interleave name sched (ta, oa) (tb', ob') db1 = ((ra, rb), db')" by simp
    from Cons.IH [OF s1(1) separate_sym [OF s1(2)] this] show ?thesis .
  qed
qed

lemma concurrent_unreachable:
  "\<not> reachable db \<Longrightarrow>
   concurrent_get_next_values sched a b db = ((Inl OperationalError, Inl OperationalError), db)"
  by (simp add: concurrent_get_next_values_def open_cursor_def)

lemma concurrent_no_sequence:
  "reachable db \<Longrightarrow> sequences db id_seq = None \<Longrightarrow>
   fst (concurrent_get_next_values sched a b db) = (Inl ProgrammingError, Inl ProgrammingError)"
  by (simp add: concurrent_get_next_values_def open_cursor_def)

lemma concurrent_interleave:
  "reachable db \<Longrightarrow> sequences db id_seq = Some s \<Longrightarrow>
   concurrent_get_next_values sched a b db =
     interleave id_seq sched (generate_series 1 a, Inr []) (generate_series 1 b, Inr [])
       (db\<lparr>statements := statements db @ [SelectNextval id_seq a, SelectNextval id_seq b]\<rparr>)"
  by (simp add: concurrent_get_next_values_def open_cursor_def)

lemma concurrent_separate:
  "distinct (returned (fst (fst (concurrent_get_next_values sched a b db)))) \<and>
   distinct (returned (snd (fst (concurrent_get_next_values sched a b db)))) \<and>
   set (returned (fst (fst (concurrent_get_next_values sched a b db)))) \<inter>
   set (returned (snd (fst (concurrent_get_next_values sched a b db)))) = {}"
proof (cases "reachable db")
  case False
  then show ?thesis by (simp add: concurrent_unreachable)
next
  case True
  show ?thesis
  proof (cases "sequences db id_seq")
    case None
    with True show ?thesis by (simp add: concurrent_no_sequence)
  next
    case (Some s)
    let ?db1 = "db\<lparr>statements := statements db @
                        [SelectNextval id_seq a, SelectNextval id_seq b]\<rparr>"
    obtain ra rb db' where i: "interleave id_seq sched
        (generate_series 1 a, Inr []) (generate_series 1 b, Inr []) ?db1 = ((ra, rb), db')"
      by (cases "interleave id_seq sched
        (generate_series 1 a, Inr []) (generate_series 1 b, Inr []) ?db1") auto
    have seq1: "sequences ?db1 id_seq = Some s" using Some by simp
    have "separate (last_value s) (returned (Inr [])) (returned (Inr []))"
      by (simp add: separate_def)
    from interleave_separate [OF seq1 this i] obtain s' :: sequence where
      "separate (last_value s') (returned ra) (returned rb)" by blast
    then have "distinct (returned ra) \<and> distinct (returned rb) \<and>
        set (returned ra) \<inter> set (returned rb) = {}"
      by (simp add: separate_def)
    then show ?thesis by (simp add: concurrent_interleave [OF True Some] i)
  qed
qed


lemma session_finish_select:
  "session_finish name (gs, Inr rows) db =
     (case select_nextval name gs db of
        (Inl e, db') \<Rightarrow> (Inl e, db')
      | (Inr rs, db') \<Rightarrow> (Inr (rows @ rs), db'))"
proof (induction gs arbitrary: rows db)
  case Nil
  then show ?case by simp
next
  case (Cons g gs)
  obtain r1 db1 where nv: "nextval name db = (r1, db1)" by (cases "nextval name db")
  show ?case
  proof (cases r1)
    case (Inl e)
    with nv show ?thesis by simp
  next
    case (Inr v)
    obtain r2 db2 where sel: "select_nextval name gs db1 = (r2, db2)"
      by (cases "select_nextval name gs db1")
    from nv Inr sel Cons.IH [of "rows @ [PyTuple [PyInt v]]" db1]
    show ?thesis by (cases r2) simp_all
  qed
qed

lemma session_finish_ok:
  assumes "sequences db name = Some s"
    and "last_value s + int (length todo) \<le> max_value s"
  shows "session_finish name (todo, Inr rows) db =
     (Inr (rows @ map (\<lambda>v. PyTuple [PyInt v])
                    [last_value s + 1 .. last_value s + int (length todo)]),
      db\<lparr>sequences := (sequences db)(name \<mapsto>
            s\<lparr>last_value := last_value s + int (length todo)\<rparr>)\<rparr>)"
  by (simp add: session_finish_select select_nextval_ok [OF assms])

lemma interleave_ok:
  assumes "sequences db name = Some s"
    and "last_value s + int (length ta) + int (length tb) \<le> max_value s"
  shows "\<exists>ra' rb' db'. interleave name sched (ta, Inr ra) (tb, Inr rb) db = ((Inr ra', Inr rb'), db') \<and>
           length ra' = length ra + length ta \<and> length rb' = length rb + length tb"
  using assms
proof (induction sched arbitrary: ta ra tb rb db s)
  case Nil
  let ?s1 = "s\<lparr>last_value := last_value s + int (length ta)\<rparr>"
  let ?db1 = "db\<lparr>sequences := (sequences db)(name \<mapsto> ?s1)\<rparr>"
  from Nil.prems have ba: "last_value s + int (length ta) \<le> max_value s" by simp
  note fa = session_finish_ok [OF Nil.prems(1) ba, of ra]
  have seq1: "sequences ?db1 name = Some ?s1" by simp
  from Nil.prems have bb: "last_value ?s1 + int (length tb) \<le> max_value ?s1" by simp
  note fb = session_finish_ok [OF seq1 bb, of rb]
  show ?case by (simp add: fa fb)
next
  case (Cons x sched)
  show ?case
  proof (cases x)
    case True
    show ?thesis
    proof (cases ta)
      case Nil
      from Cons.IH [OF Cons.prems(1), of ta tb ra rb] Cons.prems(2) True Nil
      show ?thesis by simp
    next
      case (Cons g gs)
      let ?s1 = "s\<lparr>last_value := last_value s + 1\<rparr>"
      let ?db1 = "db\<lparr>sequences := (sequences db)(name \<mapsto> ?s1)\<rparr>"
      from Cons.prems Cons have "last_value s < max_value s" by simp
      with Cons.prems(1) have nv: "nextval name db = (Inr (last_value s + 1), ?db1)"
        by (simp add: nextval_def)
      have seq1: "sequences ?db1 name = Some ?s1" by simp
      from Cons.prems(2) Cons
      have b1: "last_value ?s1 + int (length gs) + int (length tb) \<le> max_value ?s1" by simp
      from Cons.IH [OF seq1 b1, of "ra @ [PyTuple [PyInt (last_value s + 1)]]" rb] True Cons nv
      show ?thesis by simp
    qed
  next
    case False
    show ?thesis
    proof (cases tb)
      case Nil
      from Cons.IH [OF Cons.prems(1), of ta tb ra rb] Cons.prems(2) False Nil
      show ?thesis by simp
    next
      case (Cons g gs)
      let ?s1 = "s\<lparr>last_value := last_value s + 1\<rparr>"
      let ?db1 = "db\<lparr>sequences := (sequences db)(name \<mapsto> ?s1)\<rparr>"
      from Cons.prems Cons have "last_value s < max_value s" by simp
      with Cons.prems(1) have nv: "nextval name db = (Inr (last_value s + 1), ?db1)"
        by (simp add: nextval_def)
      have seq1: "sequences ?db1 name = Some ?s1" by simp
      from Cons.prems(2) Cons
      have b1: "last_value ?s1 + int (length ta) + int (length gs) \<le> max_value ?s1" by simp
      from Cons.IH [OF seq1 b1, of ra "rb @ [PyTuple [PyInt (last_value s + 1)]]"] False Cons nv
      show ?thesis by simp
    qed
  qed
qed

lemma concurrent_ok:
  assumes "reachable db" and "sequences db id_seq = Some s" and "0 \<le> a" and "0 \<le> b"
    and "last_value s + a + b \<le> max_value s"
  shows "\<exists>ra rb. fst (concurrent_get_next_values sched a b db) = (Inr ra, Inr rb) \<and>
           int (length ra) = a \<and> int (length rb) = b"
proof -
  let ?db1 = "db\<lparr>statements := statements db @
                        [SelectNextval id_seq a, SelectNextval id_seq b]\<rparr>"
  have seq1: "sequences ?db1 id_seq = Some s" using assms(2) by simp
  have la: "int (length (generate_series 1 a)) = a" using assms(3) by (simp add: generate_series_def)
  have lb: "int (length (generate_series 1 b)) = b" using assms(4) by (simp add: generate_series_def)
  have room: "last_value s + int (length (generate_series 1 a)) +
      int (length (generate_series 1 b)) \<le> max_value s"
    using assms(5) la lb by simp
  from interleave_ok [OF seq1 room, of sched "[]" "[]"] obtain ra rb db' where
    "interleave id_seq sched (generate_series 1 a, Inr []) (generate_series 1 b, Inr []) ?db1 =
       ((Inr ra, Inr rb), db')"
    "length ra = length (generate_series 1 a)" "length rb = length (generate_series 1 b)"
    by auto
  with la lb show ?thesis
    by (intro exI [of _ ra] exI [of _ rb]) (simp add: concurrent_interleave [OF assms(1,2)])
qed


lemma nextval_statements:
  "nextval name (db\<lparr>statements := x\<rparr>) =
     (fst (nextval name db), (snd (nextval name db))\<lparr>statements := x\<rparr>)"
  by (simp add: nextval_def split: option.splits)

lemma select_nextval_statements:
  "select_nextval name gs (db\<lparr>statements := x\<rparr>) =
     (fst (select_nextval name gs db), (snd (select_nextval name gs db))\<lparr>statements := x\<rparr>)"
proof (induction gs arbitrary: db)
  case Nil
  then show ?case by simp
next
  case (Cons g gs)
  obtain r1 db1 where nv: "nextval name db = (r1, db1)" by (cases "nextval name db")
  then have nvx: "nextval name (db\<lparr>statements := x\<rparr>) = (r1, db1\<lparr>statements := x\<rparr>)"
    by (simp add: nextval_statements)
  show ?case
  proof (cases r1)
    case (Inl e)
    with nv nvx show ?thesis by simp
  next
    case (Inr v)
    obtain r2 db2 where sel: "select_nextval name gs db1 = (r2, db2)"
      by (cases "select_nextval name gs db1")
    with Cons.IH [of db1]
    have selx: "select_nextval name gs (db1\<lparr>statements := x\<rparr>) = (r2, db2\<lparr>statements := x\<rparr>)"
      by simp
    from nv nvx Inr sel selx show ?thesis by (cases r2) simp_all
  qed
qed

lemma concurrent_serial:
  assumes "reachable db" and "sequences db id_seq = Some s"
  shows "fst (concurrent_get_next_values [] a b db) =
     (fst (get_next_values a db), fst (get_next_values b (snd (get_next_values a db))))"
proof -
  let ?S = "statements db"
  let ?ga = "generate_series 1 a" and ?gb = "generate_series 1 b"
  obtain ra dbA where sa: "select_nextval id_seq ?ga db = (ra, dbA)"
    by (cases "select_nextval id_seq ?ga db")
  from select_nextval_result [OF assms(2) sa] obtain sA where
    sA: "sequences dbA id_seq = Some sA" "reachable dbA = reachable db" by blast
  obtain rb dbB where sb: "select_nextval id_seq ?gb dbA = (rb, dbB)"
    by (cases "select_nextval id_seq ?gb dbA")
  have first: "get_next_values a db = (ra, dbA\<lparr>statements := ?S @ [SelectNextval id_seq a]\<rparr>)"
    by (simp add: get_next_values_select [OF assms] select_nextval_statements sa)
  let ?d1 = "dbA\<lparr>statements := ?S @ [SelectNextval id_seq a]\<rparr>"
  have r1: "reachable ?d1" using sA(2) assms(1) by simp
  have s1: "sequences ?d1 id_seq = Some sA" using sA(1) by simp
  have second: "fst (get_next_values b ?d1) = rb"
    by (simp add: get_next_values_select [OF r1 s1] select_nextval_statements sb)
  have conc: "fst (concurrent_get_next_values [] a b db) = (ra, rb)"
  proof -
    have fa: "session_finish id_seq (?ga, Inr [])
        (db\<lparr>statements := ?S @ [SelectNextval id_seq a, SelectNextval id_seq b]\<rparr>) =
        (ra, dbA\<lparr>statements := ?S @ [SelectNextval id_seq a, SelectNextval id_seq b]\<rparr>)"
      by (cases ra) (simp_all add: session_finish_select select_nextval_statements sa)
    have fb: "fst (session_finish id_seq (?gb, Inr [])
        (dbA\<lparr>statements := ?S @ [SelectNextval id_seq a, SelectNextval id_seq b]\<rparr>)) = rb"
      by (cases rb) (simp_all add: session_finish_select select_nextval_statements sb)
    show ?thesis
      using fb by (auto simp: concurrent_interleave [OF assms] fa split: prod.splits)
  qed
  show ?thesis by (simp add: conc first second)
qed

section \<open>The claims\<close>

subsection \<open>C1: a call with a positive count\<close>

text \<open>
  C1, as amended. For every positive \<open>num\<close>, when the database is reachable and the
  sequence exists and has room for \<open>num\<close> more values, \<open>get_next_values num\<close> returns
  exactly \<open>num\<close> rows, each a one-element tuple wrapping an integer, and the wrapped
  integers are distinct and strictly ascending in row order.
\<close>

theorem get_next_values_rows_ascending:
  assumes "reachable db" and "sequences db id_seq = Some s" and "0 < num"
    and "last_value s + num \<le> max_value s"
  shows "\<exists>vs. fst (get_next_values num db) = Inr (map (\<lambda>v. PyTuple [PyInt v]) vs) \<and>
           int (length vs) = num \<and> sorted_wrt (<) vs \<and> distinct vs"
proof (intro exI conjI)
  from assms have "0 \<le> num" by simp
  from get_next_values_ok [OF assms(1,2) this assms(4)]
  show "fst (get_next_values num db) =
      Inr (map (\<lambda>v. PyTuple [PyInt v]) [last_value s + 1 .. last_value s + num])"
    by simp
  show "int (length [last_value s + 1 .. last_value s + num]) = num"
    using assms(3) by simp
  show "sorted_wrt (<) [last_value s + 1 .. last_value s + num]"
    by (rule sorted_wrt_upto)
  show "distinct [last_value s + 1 .. last_value s + num]"
    by (rule distinct_upto)
qed

text \<open>The theorem at \<open>num = 3\<close> on a database that has just been set up.\<close>

theorem get_next_values_rows_ascending_witness:
  "reachable fresh_database \<and>
   sequences fresh_database id_seq = Some \<lparr>last_value = 0, max_value = 9223372036854775807\<rparr> \<and>
   (\<exists>vs. fst (get_next_values 3 fresh_database) = Inr (map (\<lambda>v. PyTuple [PyInt v]) vs) \<and>
      int (length vs) = 3 \<and> sorted_wrt (<) vs \<and> distinct vs)"
proof -
  have r: "reachable fresh_database" by (simp add: fresh_database_def)
  have s: "sequences fresh_database id_seq =
      Some \<lparr>last_value = 0, max_value = 9223372036854775807\<rparr>"
    by (simp add: fresh_database_def)
  from get_next_values_rows_ascending [OF r s, of 3] r s show ?thesis by simp
qed

text \<open>
  C1 as the spec words it asks for integers. The call with \<open>num = 1\<close> on a database that
  has just been set up returns the list \<^verbatim>\<open>[(1,)]\<close>, whose one element is a tuple and not
  an integer.
\<close>

theorem get_next_values_returns_tuples_not_integers:
  "fst (get_next_values 1 fresh_database) = Inr [PyTuple [PyInt 1]] \<and>
   \<not> list_all is_int [PyTuple [PyInt 1]]"
  by (simp add: run_defs upto_rec1)

subsection \<open>C2: a call with a count that is not positive\<close>

text \<open>
  C2, as amended. When \<open>num\<close> is zero or negative and the database is reachable and has
  the sequence, \<open>get_next_values num\<close> does not fail: it sends its statement to the
  database, returns the empty list, and leaves the sequence and the table as they were.
\<close>

theorem get_next_values_nonpositive_num:
  assumes "reachable db" and "sequences db id_seq = Some s" and "num \<le> 0"
  shows "get_next_values num db =
     (Inr [], db\<lparr>statements := statements db @ [SelectNextval id_seq num]\<rparr>)"
  using assms(3)
  by (simp add: get_next_values_select [OF assms(1,2)] generate_series_def)

text \<open>The theorem at \<open>num = -2\<close>.\<close>

theorem get_next_values_nonpositive_num_witness:
  "reachable fresh_database \<and>
   sequences fresh_database id_seq = Some \<lparr>last_value = 0, max_value = 9223372036854775807\<rparr> \<and>
   get_next_values (- 2) fresh_database =
     (Inr [], fresh_database\<lparr>statements :=
        statements fresh_database @ [SelectNextval id_seq (- 2)]\<rparr>)"
proof -
  have r: "reachable fresh_database" by (simp add: fresh_database_def)
  have s: "sequences fresh_database id_seq =
      Some \<lparr>last_value = 0, max_value = 9223372036854775807\<rparr>"
    by (simp add: fresh_database_def)
  from get_next_values_nonpositive_num [OF r s, of "- 2"] r s show ?thesis by simp
qed

text \<open>
  C2 as the spec words it asks for a failure and no storage access. With \<open>num = 0\<close> and
  with \<open>num = -1\<close> the call returns normally, and the database has received the
  statement.
\<close>

theorem get_next_values_zero_reaches_storage:
  "fst (get_next_values 0 fresh_database) = Inr [] \<and>
   statements (snd (get_next_values 0 fresh_database)) = [SelectNextval id_seq 0] \<and>
   fst (get_next_values (- 1) fresh_database) = Inr [] \<and>
   statements (snd (get_next_values (- 1) fresh_database)) = [SelectNextval id_seq (- 1)]"
  by (simp add: run_defs)

subsection \<open>C3: successive calls take consecutive ranges\<close>

text \<open>
  C3, as amended. Calls that do not overlap in time take consecutive ranges: a call with a
  positive \<open>num\<close> that runs alone, on a reachable database whose sequence has room,
  advances the sequence by exactly \<open>num\<close> and returns the \<open>num\<close> values produced, in
  increasing order, each as a one-element row; the next call starts where this one
  stopped.
\<close>

theorem get_next_values_consecutive_range:
  assumes "reachable db" and "sequences db id_seq = Some s" and "0 < num"
    and "last_value s + num \<le> max_value s"
  shows "get_next_values num db =
     (Inr (map (\<lambda>v. PyTuple [PyInt v]) [last_value s + 1 .. last_value s + num]),
      db\<lparr>sequences := (sequences db)(id_seq \<mapsto> s\<lparr>last_value := last_value s + num\<rparr>),
         statements := statements db @ [SelectNextval id_seq num]\<rparr>)"
  using assms by (intro get_next_values_ok) simp_all

text \<open>
  The example of the spec: with the sequence at 10, a call for three values returns the
  rows \<^verbatim>\<open>[(11,), (12,), (13,)]\<close>, and the call for two values that follows returns
  \<^verbatim>\<open>[(14,), (15,)]\<close> and leaves the sequence at 15.
\<close>

theorem get_next_values_consecutive_range_witness:
  "fst (get_next_values 3 (database_at 10)) =
     Inr [PyTuple [PyInt 11], PyTuple [PyInt 12], PyTuple [PyInt 13]] \<and>
   fst (get_next_values 2 (snd (get_next_values 3 (database_at 10)))) =
     Inr [PyTuple [PyInt 14], PyTuple [PyInt 15]] \<and>
   sequences (snd (get_next_values 2 (snd (get_next_values 3 (database_at 10))))) id_seq =
     Some \<lparr>last_value = 15, max_value = 9223372036854775807\<rparr>"
proof -
  let ?s10 = "\<lparr>last_value = 10, max_value = 9223372036854775807\<rparr>"
  let ?s13 = "\<lparr>last_value = 13, max_value = 9223372036854775807\<rparr>"
  have r: "reachable (database_at 10)" by (simp add: database_at_def fresh_database_def)
  have s: "sequences (database_at 10) id_seq = Some ?s10"
    by (simp add: database_at_def fresh_database_def)
  have first: "get_next_values 3 (database_at 10) =
     (Inr [PyTuple [PyInt 11], PyTuple [PyInt 12], PyTuple [PyInt 13]],
      (database_at 10)\<lparr>sequences := (sequences (database_at 10))(id_seq \<mapsto> ?s13),
         statements := statements (database_at 10) @ [SelectNextval id_seq 3]\<rparr>)"
    using get_next_values_consecutive_range [OF r s, of 3] by (simp add: upto_rec1)
  let ?db13 = "snd (get_next_values 3 (database_at 10))"
  have r': "reachable ?db13" using r by (simp add: first)
  have s': "sequences ?db13 id_seq = Some ?s13" by (simp add: first)
  have second: "get_next_values 2 ?db13 =
     (Inr [PyTuple [PyInt 14], PyTuple [PyInt 15]],
      ?db13\<lparr>sequences := (sequences ?db13)(id_seq \<mapsto>
          \<lparr>last_value = 15, max_value = 9223372036854775807\<rparr>),
         statements := statements ?db13 @ [SelectNextval id_seq 2]\<rparr>)"
    using get_next_values_consecutive_range [OF r' s', of 2] by (simp add: upto_rec1)
  show ?thesis
    unfolding second unfolding first by simp
qed

text \<open>
  C3 as the spec words it fails in two ways. It gives the result as the list
  \<^verbatim>\<open>[11, 12, 13]\<close>, and that list of bare integers is not what the call returns. And it
  has every call advance the sequence by its whole count at once, but only a single step
  is taken at once: with the sequence at 10, when a call for two values and a call for
  one value overlap and their steps alternate, the first call gets 11 and 13, which is
  not a range of consecutive values, and the second gets 12.
\<close>

theorem get_next_values_not_bare_integers_nor_atomic:
  "fst (get_next_values 3 (database_at 10)) \<noteq> Inr [PyInt 11, PyInt 12, PyInt 13] \<and>
   fst (concurrent_get_next_values [True, False, True] 2 1 (database_at 10)) =
     (Inr [PyTuple [PyInt 11], PyTuple [PyInt 13]], Inr [PyTuple [PyInt 12]])"
proof
  show "fst (get_next_values 3 (database_at 10)) \<noteq> Inr [PyInt 11, PyInt 12, PyInt 13]"
    by (simp add: run_defs upto_rec1)
  show "fst (concurrent_get_next_values [True, False, True] 2 1 (database_at 10)) =
     (Inr [PyTuple [PyInt 11], PyTuple [PyInt 13]], Inr [PyTuple [PyInt 12]])"
    by code_simp
qed


subsection \<open>C4: no value is handed out twice\<close>

text \<open>
  C4. Over any history of the database (calls of \<open>get_next_values\<close> with any counts,
  insertions and deletions of rows, outages), from any starting state, the rows returned
  by all the calls together are pairwise distinct: the integers they wrap are strictly
  ascending in the order in which they were returned. So no value returned by one call was
  returned by an earlier call or is returned by a later one, whatever happens to the rows
  of the table in between.
\<close>

theorem get_next_values_never_reuses:
  "\<exists>vs. fst (history ops db) = map (\<lambda>v. PyTuple [PyInt v]) vs \<and> sorted_wrt (<) vs \<and>
        distinct (fst (history ops db))"
proof (cases "sequences db id_seq")
  case None
  from history_without_sequence [OF this, of ops]
  show ?thesis by (intro exI [of _ "[]"]) simp
next
  case (Some s)
  obtain out db' where h: "history ops db = (out, db')" by (cases "history ops db")
  from history_ascending [OF Some h] obtain vs where
    vs: "out = map (\<lambda>v. PyTuple [PyInt v]) vs" "sorted_wrt (<) vs" by blast
  from vs(2) have "distinct vs" by (simp add: strict_sorted_iff)
  then have "distinct (map (\<lambda>v. PyTuple [PyInt v]) vs)"
    by (simp add: distinct_map inj_on_def)
  with vs h show ?thesis by (intro exI [of _ vs]) simp
qed

text \<open>
  A history on a database that has just been set up, with two insertions, a deletion, an
  outage during which a call fails, and a call for zero values between the calls.
\<close>

theorem get_next_values_never_reuses_witness:
  "fst (history
     [GetNextValues 2, InsertRow 1000 1 [97] None, InsertRow 1001 2 [98] None, DeleteRow 2,
      Connectivity False, GetNextValues 1, Connectivity True, GetNextValues 0,
      InsertRow 1002 7 [99] None, GetNextValues 2] fresh_database) =
     [PyTuple [PyInt 1], PyTuple [PyInt 2], PyTuple [PyInt 3], PyTuple [PyInt 4]] \<and>
   distinct (fst (history
     [GetNextValues 2, InsertRow 1000 1 [97] None, InsertRow 1001 2 [98] None, DeleteRow 2,
      Connectivity False, GetNextValues 1, Connectivity True, GetNextValues 0,
      InsertRow 1002 7 [99] None, GetNextValues 2] fresh_database))"
proof -
  let ?ops = "[GetNextValues 2, InsertRow 1000 1 [97] None, InsertRow 1001 2 [98] None, DeleteRow 2,
      Connectivity False, GetNextValues 1, Connectivity True, GetNextValues 0,
      InsertRow 1002 7 [99] None, GetNextValues 2]"
  have "fst (history ?ops fresh_database) =
     [PyTuple [PyInt 1], PyTuple [PyInt 2], PyTuple [PyInt 3], PyTuple [PyInt 4]]"
    by code_simp
  moreover from get_next_values_never_reuses [of ?ops fresh_database]
  have "distinct (fst (history ?ops fresh_database))" by blast
  ultimately show ?thesis by simp
qed

subsection \<open>C5: the string column is unique\<close>

text \<open>
  C5. The class declares the table-level constraint \<^verbatim>\<open>unique_string\<close> on the column
  \<^verbatim>\<open>string\<close>. If no two rows of the table share a string, then no two rows share a
  string after any history. And when two rows with the same new string (of at most 200
  characters, under two different unused identifiers) are inserted one after the other on
  a reachable database, the first insertion succeeds and the second fails with the
  violation of \<^verbatim>\<open>unique_string\<close>, whichever of the two comes first.
\<close>

theorem unique_string_enforced:
  assumes "distinct (map string_col (table db))"
  shows "UniqueConstraint [''string''] ''unique_string'' \<in> set (constraints Meta) \<and>
     distinct (map string_col (table (snd (history ops db)))) \<and>
     (reachable db \<and> length s \<le> 200 \<and> s \<notin> string_col ` set (table db) \<and>
      i \<notin> id_col ` set (table db) \<and> j \<notin> id_col ` set (table db) \<and> i \<noteq> j \<longrightarrow>
        fst (insert_row n1 i s d1 db) = Inr () \<and>
        fst (insert_row n2 j s d2 (snd (insert_row n1 i s d1 db))) =
          Inl (IntegrityError ''unique_string'') \<and>
        fst (insert_row n2 j s d2 db) = Inr () \<and>
        fst (insert_row n1 i s d1 (snd (insert_row n2 j s d2 db))) =
          Inl (IntegrityError ''unique_string''))"
proof (intro conjI impI)
  show "UniqueConstraint [''string''] ''unique_string'' \<in> set (constraints Meta)"
    by (simp add: Meta_def)
  show "distinct (map string_col (table (snd (history ops db))))"
    using assms
    by (rule history_table_invariant [where I = "\<lambda>t. distinct (map string_col t)"])
      (simp_all add: distinct_map_filter insert_row_keeps_strings_distinct)
next
  assume h: "reachable db \<and> length s \<le> 200 \<and> s \<notin> string_col ` set (table db) \<and>
      i \<notin> id_col ` set (table db) \<and> j \<notin> id_col ` set (table db) \<and> i \<noteq> j"
  have one: "fst (insert_row n i' s d db) = Inr () \<and>
      fst (insert_row n' j' s d' (snd (insert_row n i' s d db))) =
        Inl (IntegrityError ''unique_string'')"
    if "i' \<notin> id_col ` set (table db)" "j' \<notin> id_col ` set (table db)" "i' \<noteq> j'"
    for n n' i' j' d d'
  proof -
    let ?db1 = "snd (insert_row n i' s d db)"
    from h that have first: "insert_row n i' s d db =
        (Inr (), db\<lparr>statements := statements db @ [InsertInto (db_table Meta)
             \<lparr>id_col = i', string_col = s, date_added_col = (case d of None \<Rightarrow> n | Some t \<Rightarrow> t)\<rparr>],
           table := table db @
             [\<lparr>id_col = i', string_col = s, date_added_col = (case d of None \<Rightarrow> n | Some t \<Rightarrow> t)\<rparr>]\<rparr>)"
      by (simp add: insert_row_reachable Let_def)
    have r1: "reachable ?db1" using h by (simp add: first)
    have t1: "table ?db1 = table db @
        [\<lparr>id_col = i', string_col = s, date_added_col = (case d of None \<Rightarrow> n | Some t \<Rightarrow> t)\<rparr>]"
      by (simp add: first)
    have "fst (insert_row n' j' s d' ?db1) = Inl (IntegrityError ''unique_string'')"
      using h that by (simp add: insert_row_reachable [OF r1] Let_def t1)
    with first show ?thesis by simp
  qed
  from h one [of i j n1 d1 n2 d2]
  show "fst (insert_row n1 i s d1 db) = Inr ()"
    and "fst (insert_row n2 j s d2 (snd (insert_row n1 i s d1 db))) =
          Inl (IntegrityError ''unique_string'')" by simp_all
  from h one [of j i n2 d2 n1 d1]
  show "fst (insert_row n2 j s d2 db) = Inr ()"
    and "fst (insert_row n1 i s d1 (snd (insert_row n2 j s d2 db))) =
          Inl (IntegrityError ''unique_string'')" by simp_all
qed

text \<open>The theorem on an empty table, for the string \<^verbatim>\<open>"a"\<close> under the identifiers 1 and 2.\<close>

theorem unique_string_enforced_witness:
  "distinct (map string_col (table fresh_database)) \<and>
   reachable fresh_database \<and>
   fst (insert_row 1000 1 [97] None fresh_database) = Inr () \<and>
   fst (insert_row 1001 2 [97] None (snd (insert_row 1000 1 [97] None fresh_database))) =
     Inl (IntegrityError ''unique_string'') \<and>
   fst (insert_row 1001 2 [97] None fresh_database) = Inr () \<and>
   fst (insert_row 1000 1 [97] None (snd (insert_row 1001 2 [97] None fresh_database))) =
     Inl (IntegrityError ''unique_string'') \<and>
   distinct (map string_col (table (snd (history
     [InsertRow 1000 1 [97] None, InsertRow 1001 2 [97] None] fresh_database)))) \<and>
   table (snd (history [InsertRow 1000 1 [97] None, InsertRow 1001 2 [97] None] fresh_database)) =
     [\<lparr>id_col = 1, string_col = [97], date_added_col = 1000\<rparr>]"
proof -
  have inv: "distinct (map string_col (table fresh_database))"
    by (simp add: fresh_database_def)
  have ev: "table (snd (history [InsertRow 1000 1 [97] None, InsertRow 1001 2 [97] None]
      fresh_database)) = [\<lparr>id_col = 1, string_col = [97], date_added_col = 1000\<rparr>]"
    by code_simp
  from unique_string_enforced [OF inv, where ops = "[InsertRow 1000 1 [97] None, InsertRow 1001 2 [97] None]"
      and s = "[97]" and i = 1 and j = 2 and ?n1.0 = 1000 and ?n2.0 = 1001
      and ?d1.0 = None and ?d2.0 = None] inv ev
  show ?thesis by (simp add: fresh_database_def)
qed

subsection \<open>C6: overlapping calls get disjoint values\<close>

text \<open>
  C6. For any two calls \<open>get_next_values a\<close> and \<open>get_next_values b\<close> that overlap in
  time, under every schedule of their steps and from every state of the database, the
  rows that the one caller gets back and the rows that the other gets back have no row
  in common. And when the database is reachable and the sequence has room for both
  counts, both calls do return, with \<open>a\<close> and \<open>b\<close> rows.
\<close>

theorem concurrent_calls_disjoint:
  "set (returned (fst (fst (concurrent_get_next_values sched a b db)))) \<inter>
   set (returned (snd (fst (concurrent_get_next_values sched a b db)))) = {} \<and>
   (reachable db \<and> sequences db id_seq = Some s \<and> 0 \<le> a \<and> 0 \<le> b \<and>
    last_value s + a + b \<le> max_value s \<longrightarrow>
      (\<exists>ra rb. fst (concurrent_get_next_values sched a b db) = (Inr ra, Inr rb) \<and>
         int (length ra) = a \<and> int (length rb) = b))"
  using concurrent_separate [of sched a b db] concurrent_ok [of db s a b sched] by blast

text \<open>
  A call for two values and a call for three, with the sequence at 10 and the steps
  alternating.
\<close>

theorem concurrent_calls_disjoint_witness:
  "fst (concurrent_get_next_values [True, False, True, False] 2 3 (database_at 10)) =
     (Inr [PyTuple [PyInt 11], PyTuple [PyInt 13]],
      Inr [PyTuple [PyInt 12], PyTuple [PyInt 14], PyTuple [PyInt 15]]) \<and>
   set [PyTuple [PyInt 11], PyTuple [PyInt 13]] \<inter>
   set [PyTuple [PyInt 12], PyTuple [PyInt 14], PyTuple [PyInt 15]] = {}"
proof -
  have ev: "fst (concurrent_get_next_values [True, False, True, False] 2 3 (database_at 10)) =
     (Inr [PyTuple [PyInt 11], PyTuple [PyInt 13]],
      Inr [PyTuple [PyInt 12], PyTuple [PyInt 14], PyTuple [PyInt 15]])"
    by code_simp
  from concurrent_calls_disjoint [of "[True, False, True, False]" 2 3 "database_at 10"] ev
  show ?thesis by simp
qed

subsection \<open>C7: stored strings have at most 200 characters\<close>

text \<open>
  C7. If every string in the table has at most 200 characters, so has every string in the
  table after any history; and the insertion of a longer string on a reachable database
  fails with a data error.
\<close>

theorem string_length_bounded:
  assumes "list_all (\<lambda>r. length (string_col r) \<le> 200) (table db)"
  shows "list_all (\<lambda>r. length (string_col r) \<le> 200) (table (snd (history ops db))) \<and>
         (reachable db \<and> 200 < length s \<longrightarrow> fst (insert_row now i s d db) = Inl DataError)"
proof (intro conjI impI)
  show "list_all (\<lambda>r. length (string_col r) \<le> 200) (table (snd (history ops db)))"
    using assms
    by (rule history_table_invariant
        [where I = "\<lambda>t. list_all (\<lambda>r. length (string_col r) \<le> 200) t"])
      (simp_all add: list_all_iff insert_row_keeps_strings_short [unfolded list_all_iff])
next
  assume "reachable db \<and> 200 < length s"
  then show "fst (insert_row now i s d db) = Inl DataError"
    by (simp add: insert_row_reachable Let_def)
qed

text \<open>
  The theorem on an empty table: a string of 201 characters is refused, one of 200 is
  stored.
\<close>

theorem string_length_bounded_witness:
  "list_all (\<lambda>r. length (string_col r) \<le> 200) (table fresh_database) \<and>
   reachable fresh_database \<and> 200 < length (replicate 201 (97::nat)) \<and>
   fst (insert_row 1000 1 (replicate 201 97) None fresh_database) = Inl DataError \<and>
   list_all (\<lambda>r. length (string_col r) \<le> 200)
     (table (snd (history [InsertRow 1000 1 (replicate 201 97) None,
        InsertRow 1001 2 (replicate 200 97) None] fresh_database))) \<and>
   map id_col (table (snd (history [InsertRow 1000 1 (replicate 201 97) None,
        InsertRow 1001 2 (replicate 200 97) None] fresh_database))) = [2]"
proof -
  have inv: "list_all (\<lambda>r. length (string_col r) \<le> 200) (table fresh_database)"
    by (simp add: fresh_database_def)
  have ev: "map id_col (table (snd (history [InsertRow 1000 1 (replicate 201 97) None,
        InsertRow 1001 2 (replicate 200 97) None] fresh_database))) = [2]"
    by code_simp
  from string_length_bounded [OF inv, where ops = "[InsertRow 1000 1 (replicate 201 97) None,
        InsertRow 1001 2 (replicate 200 97) None]" and s = "replicate 201 97"
      and now = 1000 and i = 1 and d = None] inv ev
  show ?thesis by (simp add: fresh_database_def)
qed

subsection \<open>C8: the creation timestamp\<close>

text \<open>
  C8. A row that is created at clock reading \<open>now\<close> with no explicit timestamp is stored
  with \<open>date_added = now\<close>; a row created with an explicit timestamp keeps it.
\<close>

theorem date_added_defaults_to_creation_time:
  assumes "insert_row now i s d db = (Inr (), db')"
  shows "table db' = table db @
     [\<lparr>id_col = i, string_col = s,
       date_added_col = (case d of None \<Rightarrow> now | Some t \<Rightarrow> t)\<rparr>]"
proof (cases "reachable db")
  case True
  from assms show ?thesis
    by (auto simp: insert_row_reachable [OF True] Let_def split: if_splits)
next
  case False
  with assms show ?thesis by (simp add: insert_row_unreachable)
qed

text \<open>The theorem for a row created at clock reading 1000 with no timestamp given.\<close>

theorem date_added_defaults_to_creation_time_witness:
  "fst (insert_row 1000 1 [97] None fresh_database) = Inr () \<and>
   table (snd (insert_row 1000 1 [97] None fresh_database)) =
     [\<lparr>id_col = 1, string_col = [97], date_added_col = 1000\<rparr>]"
proof -
  have f: "fst (insert_row 1000 1 [97] None fresh_database) = Inr ()"
    by code_simp
  then have "insert_row 1000 1 [97] None fresh_database =
      (Inr (), snd (insert_row 1000 1 [97] None fresh_database))"
    by (metis prod.collapse)
  from date_added_defaults_to_creation_time [OF this] f show ?thesis by (simp add: fresh_database_def)
qed

subsection \<open>C9: the result is the list of fetched rows\<close>

text \<open>
  C9. For every \<open>num\<close> and every database, whatever \<open>get_next_values num\<close> returns is
  the result of \<open>fetchall\<close> on the cursor after the statement has run: a list of
  one-element tuples, each wrapping one of the integers that the call drew from the
  sequence, in the order drawn. No element of the list is a bare integer.
\<close>

theorem get_next_values_returns_fetchall_rows:
  assumes "get_next_values num db = (Inr rows, db')"
  shows "(\<exists>c. fst (execute \<lparr>pending = []\<rparr> id_seq num db) = Inr c \<and> rows = fetchall c) \<and>
         (\<exists>s s'. sequences db id_seq = Some s \<and> sequences db' id_seq = Some s' \<and>
            rows = map (\<lambda>v. PyTuple [PyInt v]) [last_value s + 1 .. last_value s']) \<and>
         list_all (\<lambda>r. \<not> is_int r) rows"
proof (intro conjI)
  from assms show "\<exists>c. fst (execute \<lparr>pending = []\<rparr> id_seq num db) = Inr c \<and> rows = fetchall c"
    by (auto simp: get_next_values_def open_cursor_def split: if_splits sum.splits prod.splits)
  show shape: "\<exists>s s'. sequences db id_seq = Some s \<and> sequences db' id_seq = Some s' \<and>
            rows = map (\<lambda>v. PyTuple [PyInt v]) [last_value s + 1 .. last_value s']"
  proof (cases "sequences db id_seq")
    case None
    from get_next_values_without_sequence [OF None assms] show ?thesis by simp
  next
    case (Some s)
    from get_next_values_result [OF Some assms] Some show ?thesis by blast
  qed
  then show "list_all (\<lambda>r. \<not> is_int r) rows"
    by (auto simp: list_all_iff)
qed

text \<open>The theorem for a call for two values with the sequence at 10.\<close>

theorem get_next_values_returns_fetchall_rows_witness:
  "get_next_values 2 (database_at 10) =
     (Inr [PyTuple [PyInt 11], PyTuple [PyInt 12]], snd (get_next_values 2 (database_at 10))) \<and>
   (\<exists>c. fst (execute \<lparr>pending = []\<rparr> id_seq 2 (database_at 10)) = Inr c \<and>
        [PyTuple [PyInt 11], PyTuple [PyInt 12]] = fetchall c) \<and>
   list_all (\<lambda>r. \<not> is_int r) [PyTuple [PyInt 11], PyTuple [PyInt 12]]"
proof -
  have g: "get_next_values 2 (database_at 10) =
     (Inr [PyTuple [PyInt 11], PyTuple [PyInt 12]], snd (get_next_values 2 (database_at 10)))"
    by (simp add: run_defs upto_rec1)
  from get_next_values_returns_fetchall_rows [OF g] g show ?thesis by simp
qed

subsection \<open>C10: the table is not touched\<close>

text \<open>
  C10. For every \<open>num\<close> and every database, \<open>get_next_values num\<close> leaves the rows of the
  table as they were, and the only statement it sends, if it gets a connection at all, is
  its one \<^verbatim>\<open>SELECT\<close> on the sequence: no insertion, no update, no deletion.
\<close>

theorem get_next_values_leaves_table:
  "table (snd (get_next_values num db)) = table db \<and>
   statements (snd (get_next_values num db)) =
     (if reachable db then statements db @ [SelectNextval id_seq num] else statements db)"
  using get_next_values_frame [of num db] by simp

end
